theory Spec2Isabelle
  imports Main "HOL-Library.Word"
begin

section \<open>Basic types\<close>

text \<open>
  \<open>size_t\<close> is a 64-bit unsigned integer: all index and counter arithmetic wraps.
  A byte is an 8-bit word. File positions (\<open>off_t\<close>) are lengths of byte lists and
  are kept as natural numbers.
\<close>

type_synonym size_t = "64 word"
type_synonym byte = "8 word"
type_synonym bytes = "byte list"
type_synonym off_t = nat

datatype error =
    LOGICAL_ERROR
  | CORRUPTED_DATA
  | CHECKSUM_DOESNT_MATCH
  | UNKNOWN_FORMAT_VERSION
  | READ_PAST_EOF
  | LENGTH_ERROR
  | NULL_DEREFERENCE
  | INVALID_ITERATOR
  | CANNOT_OPEN_FILE

section \<open>Ordered maps (\<open>std::map\<close>)\<close>

text \<open>
  A \<open>std::map\<close> is an association list that is kept strictly ascending in its keys.
  Iterators are positions in that list: \<open>lower_bound k\<close> and \<open>upper_bound k\<close> split
  the list into the part before the iterator and the part from the iterator on.
\<close>

definition keys :: "('k \<times> 'v) list \<Rightarrow> 'k list" where
  "keys m = map fst m"

definition ordered :: "('k::linorder \<times> 'v) list \<Rightarrow> bool" where
  "ordered m = sorted_wrt (<) (keys m)"

definition m_find :: "'k \<Rightarrow> ('k \<times> 'v) list \<Rightarrow> 'v option" where
  "m_find k m = map_of m k"

definition m_count :: "'k \<Rightarrow> ('k \<times> 'v) list \<Rightarrow> nat" where
  "m_count k m = (if m_find k m = None then 0 else 1)"

text \<open>\<open>m[k] = v\<close>: insert, or overwrite the value stored at \<open>k\<close>.\<close>

fun m_assign :: "'k::linorder \<Rightarrow> 'v \<Rightarrow> ('k \<times> 'v) list \<Rightarrow> ('k \<times> 'v) list" where
  "m_assign k v [] = [(k, v)]"
| "m_assign k v ((a, b) # ps) =
     (if k < a then (k, v) # (a, b) # ps
      else if k = a then (k, v) # ps
      else (a, b) # m_assign k v ps)"

text \<open>\<open>try_emplace\<close> and \<open>emplace\<close>: insert only when the key is absent; the flag tells
  whether the insertion took place.\<close>

definition m_try_emplace :: "'k::linorder \<Rightarrow> 'v \<Rightarrow> ('k \<times> 'v) list \<Rightarrow> ('k \<times> 'v) list \<times> bool" where
  "m_try_emplace k v m = (if m_find k m = None then (m_assign k v m, True) else (m, False))"

definition m_erase :: "'k \<Rightarrow> ('k \<times> 'v) list \<Rightarrow> ('k \<times> 'v) list" where
  "m_erase k m = filter (\<lambda>p. fst p \<noteq> k) m"

definition before_lower_bound :: "'k::linorder \<Rightarrow> ('k \<times> 'v) list \<Rightarrow> ('k \<times> 'v) list" where
  "before_lower_bound k m = takeWhile (\<lambda>p. fst p < k) m"

definition lower_bound :: "'k::linorder \<Rightarrow> ('k \<times> 'v) list \<Rightarrow> ('k \<times> 'v) list" where
  "lower_bound k m = dropWhile (\<lambda>p. fst p < k) m"

definition before_upper_bound :: "'k::linorder \<Rightarrow> ('k \<times> 'v) list \<Rightarrow> ('k \<times> 'v) list" where
  "before_upper_bound k m = takeWhile (\<lambda>p. fst p \<le> k) m"

definition upper_bound :: "'k::linorder \<Rightarrow> ('k \<times> 'v) list \<Rightarrow> ('k \<times> 'v) list" where
  "upper_bound k m = dropWhile (\<lambda>p. fst p \<le> k) m"

section \<open>Log entries and on-disk records\<close>

text \<open>
  A \<open>nuraft::log_entry\<close> object: a term, a buffer pointer (which may be null) and a value
  type. Entries are handled through pointers, so an entry also has an identity: the objects
  that this code creates with \<open>cs_new\<close> are numbered in the order of their creation, and
  every other object (an entry owned by a caller) is foreign. The fields of an entry are
  never changed after its creation.
\<close>

datatype object_id = Foreign nat | Created nat

record log_entry =
  get_term :: "64 word"
  get_buf_ptr :: "bytes option"
  get_val_type :: "32 word"
  object :: object_id

text \<open>
  \<open>makeClone\<close> creates a new object from the term, a copy of the buffer and the value type
  of the entry; \<open>serial\<close> is the number of the new object. \<open>get_buf\<close> of the library
  dereferences the buffer pointer; on a null pointer that is the error
  \<open>NULL_DEREFERENCE\<close>, raised before anything is created.
\<close>

definition makeClone :: "nat \<Rightarrow> log_entry \<Rightarrow> error + log_entry" where
  "makeClone serial entry =
     (case get_buf_ptr entry of
        None \<Rightarrow> Inl NULL_DEREFERENCE
      | Some b \<Rightarrow> Inr \<lparr>get_term = get_term entry, get_buf_ptr = Some b,
                       get_val_type = get_val_type entry, object = Created serial\<rparr>)"

record ChangelogRecordHeader =
  version :: byte
  index :: size_t
  hterm :: "64 word"
  value_type :: "32 word"
  blob_size :: size_t
  blob_checksum :: "128 word"

record ChangelogRecord =
  header :: ChangelogRecordHeader
  blob :: "bytes option"

text \<open>The only format version is \<open>V0\<close>, stored as the byte 0.\<close>

definition V0 :: byte where
  "V0 = 0"

text \<open>\<open>writeIntBinary\<close> and \<open>readIntBinary\<close>: \<open>n\<close> bytes, least significant first.\<close>

fun le_bytes :: "nat \<Rightarrow> nat \<Rightarrow> bytes" where
  "le_bytes 0 v = []"
| "le_bytes (Suc n) v = of_nat (v mod 256) # le_bytes n (v div 256)"

fun le_value :: "bytes \<Rightarrow> nat" where
  "le_value [] = 0"
| "le_value (b # bs) = unat b + 256 * le_value bs"

definition header_size :: nat where
  "header_size = 1 + 8 + 8 + 4 + 8 + 16"

definition encode_header :: "ChangelogRecordHeader \<Rightarrow> bytes" where
  "encode_header h =
     le_bytes 1 (unat (version h)) @ le_bytes 8 (unat (index h)) @ le_bytes 8 (unat (hterm h)) @
     le_bytes 4 (unat (value_type h)) @ le_bytes 8 (unat (blob_size h)) @
     le_bytes 16 (unat (blob_checksum h))"

text \<open>The bytes \<open>appendRecord\<close> writes: the header, then the blob unless
  \<open>blob_size\<close> is 0.\<close>

definition encode_record :: "ChangelogRecord \<Rightarrow> bytes" where
  "encode_record r =
     encode_header (header r) @
     (if blob_size (header r) \<noteq> 0 then (case blob r of None \<Rightarrow> [] | Some b \<Rightarrow> b) else [])"

text \<open>
  \<open>buildRecord\<close>. The checksum function (CityHash128) is a parameter \<open>H\<close>.
  The header's version field has the default value \<open>V0\<close>.
\<close>

definition buildRecord :: "(bytes \<Rightarrow> 128 word) \<Rightarrow> size_t \<Rightarrow> log_entry \<Rightarrow> ChangelogRecord" where
  "buildRecord H idx log_entry =
     (case get_buf_ptr log_entry of
        Some b \<Rightarrow>
          \<lparr>header = \<lparr>version = V0, index = idx, hterm = get_term log_entry,
                      value_type = get_val_type log_entry,
                      blob_size = of_nat (length b), blob_checksum = H b\<rparr>,
           blob = Some b\<rparr>
      | None \<Rightarrow>
          \<lparr>header = \<lparr>version = V0, index = idx, hterm = get_term log_entry,
                      value_type = get_val_type log_entry,
                      blob_size = 0, blob_checksum = 0\<rparr>,
           blob = None\<rparr>)"

section \<open>Files and the segment writer\<close>

text \<open>The directory: a map from paths to file contents.\<close>

type_synonym disk = "string \<Rightarrow> bytes option"

definition with_file :: "disk \<Rightarrow> string \<Rightarrow> (bytes \<Rightarrow> bytes) \<Rightarrow> disk" where
  "with_file d p f = (case d p of None \<Rightarrow> d | Some c \<Rightarrow> d(p \<mapsto> f c))"

definition remove_file :: "disk \<Rightarrow> string \<Rightarrow> disk" where
  "remove_file d p = d(p := None)"

datatype WriteMode = Rewrite | Append

text \<open>
  Modelled from the spec: \<open>WriteBufferFromFile\<close> is not part of the sources at hand.
  In Rewrite mode the file is created or truncated to zero length; in Append mode it is
  opened for appending and created if missing. \<open>buf_count\<close> is \<open>plain_buf.count()\<close>: the
  byte offset at which the next record begins, the current end of the file. A write
  through a writer whose file has been removed from the directory is not visible in the
  directory. \<open>sync\<close> and \<open>flush\<close> concern durability only and change nothing here.
\<close>

record ChangelogWriter =
  filepath :: string
  buf_count :: off_t
  entries_written :: size_t
  writer_start_index :: size_t

definition new_ChangelogWriter :: "disk \<Rightarrow> string \<Rightarrow> WriteMode \<Rightarrow> size_t \<Rightarrow> ChangelogWriter \<times> disk" where
  "new_ChangelogWriter d fpath mode start_idx =
     (case mode of
        Rewrite \<Rightarrow>
          (\<lparr>filepath = fpath, buf_count = 0, entries_written = 0,
            writer_start_index = start_idx\<rparr>, d(fpath \<mapsto> []))
      | Append \<Rightarrow>
          (let c = (case d fpath of None \<Rightarrow> [] | Some c \<Rightarrow> c)
           in (\<lparr>filepath = fpath, buf_count = length c, entries_written = 0,
                writer_start_index = start_idx\<rparr>, d(fpath \<mapsto> c))))"

definition appendRecord :: "ChangelogWriter \<Rightarrow> disk \<Rightarrow> ChangelogRecord \<Rightarrow> bool \<Rightarrow> off_t \<times> ChangelogWriter \<times> disk" where
  "appendRecord w d record sync =
     (let result = buf_count w;
          bs = encode_record record
      in (result,
          w\<lparr>buf_count := buf_count w + length bs, entries_written := entries_written w + 1\<rparr>,
          with_file d (filepath w) (\<lambda>c. c @ bs)))"

text \<open>\<open>ftruncate\<close> cuts the file, or pads it with zero bytes when it is shorter.\<close>

definition truncate_bytes :: "nat \<Rightarrow> bytes \<Rightarrow> bytes" where
  "truncate_bytes n c = take n c @ replicate (n - length c) 0"

definition truncateToLength :: "ChangelogWriter \<Rightarrow> disk \<Rightarrow> off_t \<Rightarrow> ChangelogWriter \<times> disk" where
  "truncateToLength w d new_length =
     (w\<lparr>buf_count := new_length\<rparr>, with_file d (filepath w) (truncate_bytes new_length))"

section \<open>Segment descriptors and paths\<close>

record ChangelogFileDescription =
  prefix :: string
  from_log_idx :: size_t
  to_log_idx :: size_t
  path :: string

definition DEFAULT_PREFIX :: string where
  "DEFAULT_PREFIX = ''changelog''"

text \<open>\<open>std::to_string\<close> on an unsigned integer: its decimal digits.\<close>

definition digit_char :: "nat \<Rightarrow> char" where
  "digit_char d = char_of (48 + d)"

fun to_string :: "nat \<Rightarrow> string" where
  "to_string n = (if n < 10 then [digit_char n] else to_string (n div 10) @ [digit_char (n mod 10)])"

declare to_string.simps [simp del]

text \<open>\<open>path /= name\<close> puts a separator between the two parts unless the directory is
  empty or already ends with one.\<close>

definition path_append :: "string \<Rightarrow> string \<Rightarrow> string" where
  "path_append dir name = (if dir = [] \<or> last dir = CHR ''/'' then dir @ name else dir @ ''/'' @ name)"

definition formatChangelogPath :: "string \<Rightarrow> ChangelogFileDescription \<Rightarrow> string" where
  "formatChangelogPath pre name =
     path_append pre
       (prefix name @ ''_'' @ to_string (unat (from_log_idx name)) @ ''_'' @
        to_string (unat (to_log_idx name)) @ ''.bin'')"

section \<open>The changelog\<close>

record Changelog =
  changelogs_dir :: string
  rotate_interval :: size_t
  existing_changelogs :: "(size_t \<times> ChangelogFileDescription) list"
  logs :: "(size_t \<times> log_entry) list"
  index_to_start_pos :: "(size_t \<times> off_t) list"
  start_index :: size_t
  current_writer :: "ChangelogWriter option"
  disk :: disk
  created :: nat

text \<open>
  Besides the members of the class the record holds the two parts of the environment that
  the operations change: the directory \<open>disk\<close>, and \<open>created\<close>, the number of entry objects
  created so far (the serial number of the next one).
\<close>

text \<open>
  An operation that throws has already changed the state up to the throw: a failure
  carries the error and the state at that point.
\<close>

type_synonym 'a result = "(error \<times> Changelog) + 'a"

definition rotate :: "Changelog \<Rightarrow> size_t \<Rightarrow> Changelog" where
  "rotate st new_start_log_idx =
     (let d0 = \<lparr>prefix = DEFAULT_PREFIX, from_log_idx = new_start_log_idx,
                to_log_idx = new_start_log_idx + rotate_interval st - 1, path = []\<rparr>;
          new_description = d0\<lparr>path := formatChangelogPath (changelogs_dir st) d0\<rparr>;
          (w, d) = new_ChangelogWriter (disk st) (path new_description) Rewrite new_start_log_idx
      in st\<lparr>existing_changelogs :=
               m_assign new_start_log_idx new_description (existing_changelogs st),
            current_writer := Some w, disk := d\<rparr>)"

definition appendEntry :: "(bytes \<Rightarrow> 128 word) \<Rightarrow> Changelog \<Rightarrow> size_t \<Rightarrow> log_entry \<Rightarrow> bool \<Rightarrow> Changelog result" where
  "appendEntry H st idx log_entry force_sync =
     (case current_writer st of
        None \<Rightarrow> Inl (LOGICAL_ERROR, st)
      | Some w0 \<Rightarrow>
          (let st1 = (if logs st = [] then st\<lparr>start_index := idx\<rparr> else st);
               st2 = (if entries_written w0 = rotate_interval st1 then rotate st1 idx else st1)
           in case current_writer st2 of
                None \<Rightarrow> Inl (NULL_DEREFERENCE, st2)
              | Some w \<Rightarrow>
                  (let (offset, w', d') = appendRecord w (disk st2) (buildRecord H idx log_entry) force_sync;
                       st3 = st2\<lparr>current_writer := Some w', disk := d'\<rparr>;
                       (offs, inserted) = m_try_emplace idx offset (index_to_start_pos st3)
                   in if \<not> inserted then Inl (LOGICAL_ERROR, st3)
                      else
                        (let st4 = st3\<lparr>index_to_start_pos := offs\<rparr>
                         in case makeClone (created st4) log_entry of
                              Inl e \<Rightarrow> Inl (e, st4)
                            | Inr c \<Rightarrow> Inr (st4\<lparr>logs := m_assign idx c (logs st4),
                                              created := created st4 + 1\<rparr>)))))"

text \<open>\<open>entryAt\<close>: the null pointer, or a pointer to a new clone of the stored entry.\<close>

definition entryAt :: "Changelog \<Rightarrow> size_t \<Rightarrow> error + log_entry option \<times> Changelog" where
  "entryAt st idx =
     (case m_find idx (logs st) of
        None \<Rightarrow> Inr (None, st)
      | Some src \<Rightarrow>
          (case makeClone (created st) src of
             Inl e \<Rightarrow> Inl e
           | Inr c \<Rightarrow> Inr (Some c, st\<lparr>created := created st + 1\<rparr>)))"

text \<open>
  \<open>getLogEntriesBetween\<close>: the vector is resized to \<open>end - start\<close> null pointers (the
  difference wraps), then the loop fills it from position 0. \<open>resize\<close> throws
  \<open>std::length_error\<close> when the size exceeds \<open>max_size()\<close>, which for a vector of 16-byte
  shared pointers is \<open>2^60 - 1\<close>; memory is otherwise taken to be unbounded.
\<close>

definition vector_max_size :: nat where
  "vector_max_size = 2 ^ 60 - 1"

function between_loop :: "Changelog \<Rightarrow> size_t \<Rightarrow> size_t \<Rightarrow> log_entry option list \<Rightarrow> nat \<Rightarrow>
    (log_entry option list \<times> Changelog) result" where
  "between_loop st i end_idx ret result_pos =
     (if i < end_idx then
        (case entryAt st i of
           Inl e \<Rightarrow> Inl (e, st)
         | Inr (x, st') \<Rightarrow> between_loop st' (i + 1) end_idx (ret[result_pos := x]) (result_pos + 1))
      else Inr (ret, st))"
  by pat_completeness auto
termination
proof (relation "measure (\<lambda>(st, i, end_idx, ret, result_pos). unat end_idx - unat i)")
  show "wf (measure (\<lambda>(st, i, end_idx, ret, result_pos). unat end_idx - unat i))"
    by simp
next
  fix st st' :: Changelog and i end_idx :: size_t and ret :: "log_entry option list"
    and result_pos :: nat and x :: "log_entry option"
  assume lt: "i < end_idx"
  then have "unat i < unat end_idx"
    by (simp add: word_less_nat_alt)
  moreover have "unat (i + 1) = unat i + 1"
    using lt by (metis (no_types, lifting) add.commute add_0 inc_i inc_le
        unat_plus_simple unsigned_0 unsigned_1 word_gt_0)
  ultimately show "((st', i + 1, end_idx, ret[result_pos := x], result_pos + 1),
                    (st, i, end_idx, ret, result_pos))
                   \<in> measure (\<lambda>(st, i, end_idx, ret, result_pos). unat end_idx - unat i)"
    by simp
qed

declare between_loop.simps [simp del]

definition getLogEntriesBetween :: "Changelog \<Rightarrow> size_t \<Rightarrow> size_t \<Rightarrow>
    (log_entry option list \<times> Changelog) result" where
  "getLogEntriesBetween st start end_idx =
     (if vector_max_size < unat (end_idx - start) then Inl (LENGTH_ERROR, st)
      else between_loop st start end_idx (replicate (unat (end_idx - start)) None) 0)"

section \<open>Overwriting a suffix: \<open>writeAt\<close>\<close>

text \<open>
  The reopening of an earlier segment. \<open>index_changelog\<close> is the iterator
  \<open>lower_bound(index)\<close>; dereferencing the end iterator, or stepping back from the first
  element, is the error \<open>INVALID_ITERATOR\<close>. The writer's start index is
  \<open>index_changelog->first\<close>.
\<close>

definition reopen_for_rollback :: "Changelog \<Rightarrow> size_t \<Rightarrow> error + ChangelogWriter \<times> disk" where
  "reopen_for_rollback st idx =
     (case lower_bound idx (existing_changelogs st) of
        [] \<Rightarrow> Inl INVALID_ITERATOR
      | (index_changelog_first, index_changelog_second) # _ \<Rightarrow>
          (case (if index_changelog_first = idx then Inr index_changelog_second
                 else (case before_lower_bound idx (existing_changelogs st) of
                         [] \<Rightarrow> Inl INVALID_ITERATOR
                       | p # ps \<Rightarrow> Inr (snd (last (p # ps))))) of
             Inl e \<Rightarrow> Inl e
           | Inr description \<Rightarrow>
               (let (w, d) = new_ChangelogWriter (disk st) (path description) Append index_changelog_first
                in Inr (w\<lparr>entries_written := to_log_idx description - from_log_idx description + 1\<rparr>, d))))"

definition remove_files :: "disk \<Rightarrow> (size_t \<times> ChangelogFileDescription) list \<Rightarrow> disk" where
  "remove_files d segs = fold (\<lambda>p d'. remove_file d' (path (snd p))) segs d"

definition erase_keys :: "('k \<times> 'a) list \<Rightarrow> ('k \<times> 'v) list \<Rightarrow> ('k \<times> 'v) list" where
  "erase_keys removed offs = fold (\<lambda>p m. m_erase (fst p) m) removed offs"

definition writeAt :: "(bytes \<Rightarrow> 128 word) \<Rightarrow> Changelog \<Rightarrow> size_t \<Rightarrow> log_entry \<Rightarrow> bool \<Rightarrow> Changelog result" where
  "writeAt H st idx log_entry force_sync =
     (case m_find idx (index_to_start_pos st) of
        None \<Rightarrow> Inl (LOGICAL_ERROR, st)
      | Some pos \<Rightarrow>
          (case current_writer st of
             None \<Rightarrow> Inl (NULL_DEREFERENCE, st)
           | Some w0 \<Rightarrow>
               (let need_rollback = (idx < writer_start_index w0)
                in case (if need_rollback then reopen_for_rollback st idx else Inr (w0, disk st)) of
                     Inl e \<Rightarrow> Inl (e, st)
                   | Inr (w1, d1) \<Rightarrow>
                       (let entries_written0 = entries_written w1;
                            (w2, d2) = truncateToLength w1 d1 pos;
                            segs = (if need_rollback
                                    then before_upper_bound idx (existing_changelogs st)
                                    else existing_changelogs st);
                            d3 = (if need_rollback
                                  then remove_files d2 (upper_bound idx (existing_changelogs st))
                                  else d2);
                            removed = lower_bound idx (logs st);
                            w3 = w2\<lparr>entries_written := entries_written0 - of_nat (length removed)\<rparr>
                        in appendEntry H
                             (st\<lparr>existing_changelogs := segs,
                                 logs := before_lower_bound idx (logs st),
                                 index_to_start_pos := erase_keys removed (index_to_start_pos st),
                                 current_writer := Some w3, disk := d3\<rparr>)
                             idx log_entry force_sync))))"

section \<open>Compaction\<close>

lemma m_erase_shorter: "m_find k m = Some v \<Longrightarrow> length (m_erase k m) < length m"
proof -
  assume "m_find k m = Some v"
  then have "(k, v) \<in> set m"
    by (simp add: m_find_def map_of_SomeD)
  then show ?thesis
    unfolding m_erase_def using length_filter_less [of "(k, v)" m "\<lambda>p. fst p \<noteq> k"] by simp
qed

text \<open>The inner loop: \<open>for (idx = from; idx <= to; ++idx)\<close>, leaving at the first
  index that has no offset.\<close>

function erase_range :: "(size_t \<times> off_t) list \<Rightarrow> size_t \<Rightarrow> size_t \<Rightarrow> (size_t \<times> off_t) list" where
  "erase_range offs idx to_idx =
     (if idx \<le> to_idx then
        (case m_find idx offs of
           None \<Rightarrow> offs
         | Some v \<Rightarrow> erase_range (m_erase idx offs) (idx + 1) to_idx)
      else offs)"
  by pat_completeness auto
termination
  by (relation "measure (\<lambda>(offs, idx, to_idx). length offs)") (auto simp: m_erase_shorter)

declare erase_range.simps [simp del]

fun compact_loop :: "(size_t \<times> ChangelogFileDescription) list \<Rightarrow> (size_t \<times> off_t) list \<Rightarrow> disk \<Rightarrow> size_t \<Rightarrow>
    (size_t \<times> ChangelogFileDescription) list \<times> (size_t \<times> off_t) list \<times> disk" where
  "compact_loop [] offs d up_to_log_idx = ([], offs, d)"
| "compact_loop ((k, desc) # rest) offs d up_to_log_idx =
     (if to_log_idx desc \<le> up_to_log_idx then
        compact_loop rest (erase_range offs (from_log_idx desc) (to_log_idx desc))
          (remove_file d (path desc)) up_to_log_idx
      else ((k, desc) # rest, offs, d))"

definition compact :: "Changelog \<Rightarrow> size_t \<Rightarrow> Changelog" where
  "compact st up_to_log_idx =
     (let (segs, offs, d) =
            compact_loop (existing_changelogs st) (index_to_start_pos st) (disk st) up_to_log_idx
      in st\<lparr>existing_changelogs := segs, index_to_start_pos := offs, disk := d,
            logs := upper_bound up_to_log_idx (logs st),
            start_index := up_to_log_idx + 1\<rparr>)"

section \<open>The segment reader\<close>

record ChangelogReadResult =
  entries_read :: size_t
  last_position :: off_t
  error :: bool

definition decode_header :: "bytes \<Rightarrow> ChangelogRecordHeader" where
  "decode_header bs =
     \<lparr>version = of_nat (le_value (take 1 bs)),
      index = of_nat (le_value (take 8 (drop 1 bs))),
      hterm = of_nat (le_value (take 8 (drop 9 bs))),
      value_type = of_nat (le_value (take 4 (drop 17 bs))),
      blob_size = of_nat (le_value (take 8 (drop 21 bs))),
      blob_checksum = of_nat (le_value (take 16 (drop 29 bs)))\<rparr>"

text \<open>
  Reading one record from the unread rest of the file: the six header fields, then
  exactly \<open>blob_size\<close> bytes. \<open>None\<close> when the file ends inside the record (the reads
  throw). The result is the header, the blob and the rest of the file.
\<close>

definition read_record :: "bytes \<Rightarrow> (ChangelogRecordHeader \<times> bytes \<times> bytes) option" where
  "read_record rest =
     (if length rest < header_size then None
      else
        (let h = decode_header rest;
             body = drop header_size rest;
             n = unat (blob_size h)
         in if length body < n then None else Some (h, take n body, drop n body)))"

lemma read_record_shorter:
  "read_record rest = Some (h, b, rest') \<Longrightarrow> length rest' < length rest"
  by (auto simp: read_record_def header_size_def Let_def split: if_splits)

text \<open>
  \<open>readChangelog\<close>: \<open>rest\<close> is the unread part of the file and \<open>pos\<close> is
  \<open>read_buf.count()\<close>, the number of bytes read so far; \<open>serial\<close> is the number of the
  next entry object. Every exception raised in the loop is caught and sets \<open>error\<close>.
\<close>

function read_loop :: "(bytes \<Rightarrow> 128 word) \<Rightarrow> bytes \<Rightarrow> off_t \<Rightarrow> size_t \<Rightarrow> size_t \<Rightarrow>
    (size_t \<times> log_entry) list \<Rightarrow> (size_t \<times> off_t) list \<Rightarrow> ChangelogReadResult \<Rightarrow> nat \<Rightarrow>
    ChangelogReadResult \<times> (size_t \<times> log_entry) list \<times> (size_t \<times> off_t) list \<times> nat" where
  "read_loop H rest pos previous_index start_log_idx lgs index_to_offset result serial =
     (if rest = [] then (result, lgs, index_to_offset, serial)
      else
        (let result1 = result\<lparr>last_position := pos\<rparr>
         in case read_record rest of
              None \<Rightarrow> (result1\<lparr>error := True\<rparr>, lgs, index_to_offset, serial)
            | Some (h, buffer, rest') \<Rightarrow>
                if previous_index \<noteq> 0 \<and> previous_index + 1 \<noteq> index h
                then (result1\<lparr>error := True\<rparr>, lgs, index_to_offset, serial)
                else if H buffer \<noteq> blob_checksum h
                then (result1\<lparr>error := True\<rparr>, lgs, index_to_offset, serial)
                else if m_count (index h) lgs \<noteq> 0
                then (result1\<lparr>error := True\<rparr>, lgs, index_to_offset, serial)
                else
                  (let result2 = result1\<lparr>entries_read := entries_read result1 + 1\<rparr>;
                       pos' = pos + header_size + length buffer
                   in if index h < start_log_idx
                      then read_loop H rest' pos' (index h) start_log_idx lgs index_to_offset
                             result2 serial
                      else
                        (let log_entry = \<lparr>get_term = hterm h, get_buf_ptr = Some buffer,
                                          get_val_type = value_type h, object = Created serial\<rparr>
                         in read_loop H rest' pos' (index h) start_log_idx
                              (fst (m_try_emplace (index h) log_entry lgs))
                              (m_assign (index h) (last_position result2) index_to_offset)
                              result2 (serial + 1)))))"
  by pat_completeness auto
termination
  by (relation "measure (\<lambda>(H, rest, pos, prev, start, lgs, offs, result, serial). length rest)")
     (auto simp: read_record_shorter)

declare read_loop.simps [simp del]

definition readChangelog :: "(bytes \<Rightarrow> 128 word) \<Rightarrow> bytes \<Rightarrow> (size_t \<times> log_entry) list \<Rightarrow> size_t \<Rightarrow>
    (size_t \<times> off_t) list \<Rightarrow> nat \<Rightarrow>
    ChangelogReadResult \<times> (size_t \<times> log_entry) list \<times> (size_t \<times> off_t) list \<times> nat" where
  "readChangelog H file lgs start_log_idx index_to_offset serial =
     read_loop H file 0 0 start_log_idx lgs index_to_offset
       \<lparr>entries_read = 0, last_position = 0, error = False\<rparr> serial"

section \<open>Recovery: \<open>readChangelogAndInitWriter\<close>\<close>

record replay_state =
  r_logs :: "(size_t \<times> log_entry) list"
  r_offsets :: "(size_t \<times> off_t) list"
  total_read :: size_t
  entries_in_last :: size_t
  incomplete_log_idx :: size_t
  r_result :: ChangelogReadResult
  r_created :: nat

text \<open>
  The loop over the segments in ascending order of their keys. Opening the reader on a
  file that does not exist throws outside the reader's handler. Besides the variables of
  the loop the result tells whether the loop was left by \<open>break\<close>.
\<close>

fun replay :: "(bytes \<Rightarrow> 128 word) \<Rightarrow> disk \<Rightarrow> size_t \<Rightarrow> (size_t \<times> ChangelogFileDescription) list \<Rightarrow>
    replay_state \<Rightarrow> (error \<times> replay_state) + replay_state \<times> bool" where
  "replay H d from_idx [] rs = Inr (rs, False)"
| "replay H d from_idx ((start_idx, changelog_description) # rest) rs =
     (let rs1 = rs\<lparr>entries_in_last :=
                     to_log_idx changelog_description - from_log_idx changelog_description + 1\<rparr>
      in if to_log_idx changelog_description \<ge> from_idx then
           (case d (path changelog_description) of
              None \<Rightarrow> Inl (CANNOT_OPEN_FILE, rs1)
            | Some file \<Rightarrow>
                (let (result, lgs, offs, serial) =
                       readChangelog H file (r_logs rs1) from_idx (r_offsets rs1) (r_created rs1);
                     rs2 = rs1\<lparr>r_logs := lgs, r_offsets := offs, r_result := result,
                               r_created := serial,
                               total_read := total_read rs1 + entries_read result\<rparr>
                 in if entries_read result < entries_in_last rs2
                    then Inr (rs2\<lparr>incomplete_log_idx := start_idx\<rparr>, True)
                    else replay H d from_idx rest rs2))
         else replay H d from_idx rest rs1)"

definition readChangelogAndInitWriter :: "(bytes \<Rightarrow> 128 word) \<Rightarrow> Changelog \<Rightarrow> size_t \<Rightarrow> Changelog result" where
  "readChangelogAndInitWriter H st from_idx =
     (let st1 = st\<lparr>start_index := (if from_idx = 0 then 1 else from_idx)\<rparr>;
          rs0 = \<lparr>r_logs = logs st1, r_offsets = index_to_start_pos st1, total_read = 0,
                 entries_in_last = 0, incomplete_log_idx = 0,
                 r_result = \<lparr>entries_read = 0, last_position = 0, error = False\<rparr>,
                 r_created = created st1\<rparr>
      in case replay H (disk st1) from_idx (existing_changelogs st1) rs0 of
           Inl (e, rs) \<Rightarrow> Inl (e, st1\<lparr>logs := r_logs rs, index_to_start_pos := r_offsets rs,
                                      created := r_created rs\<rparr>)
         | Inr (rs, left_by_break) \<Rightarrow>
             (let st2 = st1\<lparr>logs := r_logs rs, index_to_start_pos := r_offsets rs,
                           created := r_created rs\<rparr>;
                  st3 = (if incomplete_log_idx rs \<noteq> 0
                         then st2\<lparr>existing_changelogs :=
                                    before_upper_bound (incomplete_log_idx rs) (existing_changelogs st2),
                                  disk := remove_files (disk st2)
                                    (upper_bound (incomplete_log_idx rs) (existing_changelogs st2))\<rparr>
                         else st2);
                  result = r_result rs
              in if existing_changelogs st3 \<noteq> [] \<and> entries_read result < entries_in_last rs
                 then
                   (let description = snd (last (existing_changelogs st3));
                        (w, d) = new_ChangelogWriter (disk st3) (path description) Append
                                   (from_log_idx description);
                        w1 = w\<lparr>entries_written := entries_read result\<rparr>;
                        (w2, d2) = (if error result then truncateToLength w1 d (last_position result)
                                    else (w1, d))
                    in Inr (st3\<lparr>current_writer := Some w2, disk := d2\<rparr>))
                 else Inr (rotate st3 (start_index st3 + total_read rs))))"

section \<open>Bulk ingest\<close>

text \<open>
  \<open>applyEntriesFromBuffer\<close> on the entries the buffer decodes to (the framing and the
  entry serialization belong to the consensus library): the first entry overwrites when
  its index is present in \<open>logs\<close>, every other entry is appended.
\<close>

fun apply_loop :: "(bytes \<Rightarrow> 128 word) \<Rightarrow> Changelog \<Rightarrow> size_t \<Rightarrow> nat \<Rightarrow> log_entry list \<Rightarrow> bool \<Rightarrow> Changelog result" where
  "apply_loop H st idx i [] force_sync = Inr st"
| "apply_loop H st idx i (log_entry # es) force_sync =
     (let cur_idx = idx + of_nat i
      in case (if i = 0 \<and> m_count cur_idx (logs st) \<noteq> 0
               then writeAt H st cur_idx log_entry force_sync
               else appendEntry H st cur_idx log_entry force_sync) of
           Inl x \<Rightarrow> Inl x
         | Inr st' \<Rightarrow> apply_loop H st' idx (i + 1) es force_sync)"

definition applyEntriesFromBuffer :: "(bytes \<Rightarrow> 128 word) \<Rightarrow> Changelog \<Rightarrow> size_t \<Rightarrow> log_entry list \<Rightarrow> bool \<Rightarrow> Changelog result" where
  "applyEntriesFromBuffer H st idx entries force_sync = apply_loop H st idx 0 entries force_sync"

section \<open>Construction: the directory scan\<close>

text \<open>\<open>path.stem()\<close>: the file name without its directory and without its last
  extension (a leading dot does not start an extension).\<close>

definition stem :: "string \<Rightarrow> string" where
  "stem p =
     (let filename = rev (takeWhile (\<lambda>c. c \<noteq> CHR ''/'') (rev p))
      in case dropWhile (\<lambda>c. c \<noteq> CHR ''.'') (rev filename) of
           [] \<Rightarrow> filename
         | dot # t \<Rightarrow> (if t = [] then filename else rev t))"

text \<open>\<open>boost::split\<close> on one separator character, keeping empty parts.\<close>

fun split_on :: "char \<Rightarrow> string \<Rightarrow> string list" where
  "split_on c [] = [[]]"
| "split_on c (x # xs) =
     (if x = c then [] # split_on c xs
      else (case split_on c xs of [] \<Rightarrow> [[x]] | w # ws \<Rightarrow> (x # w) # ws))"

text \<open>
  Modelled from the spec: \<open>parse<size_t>\<close> is not part of the sources at hand. \<open>FROM\<close> and
  \<open>TO\<close> are decimal unsigned integers; a field that is not a non-empty string of digits
  does not parse. The value is taken in 64 bits.
\<close>

definition is_digit :: "char \<Rightarrow> bool" where
  "is_digit c = (48 \<le> (of_char c :: nat) \<and> (of_char c :: nat) \<le> 57)"

definition parse_size_t :: "string \<Rightarrow> size_t option" where
  "parse_size_t s =
     (if s = [] \<or> \<not> list_all is_digit s then None
      else Some (of_nat (foldl (\<lambda>acc c. 10 * acc + (of_char c - 48)) 0 s)))"

definition getChangelogFileDescription :: "string \<Rightarrow> error + ChangelogFileDescription" where
  "getChangelogFileDescription path_str =
     (case split_on CHR ''_'' (stem path_str) of
        p0 # p1 # p2 # ps \<Rightarrow>
          (case (parse_size_t p1, parse_size_t p2) of
             (Some f, Some t) \<Rightarrow>
               Inr \<lparr>prefix = p0, from_log_idx = f, to_log_idx = t, path = path_str\<rparr>
           | _ \<Rightarrow> Inl CORRUPTED_DATA)
      | _ \<Rightarrow> Inl CORRUPTED_DATA)"

fun scan_directory :: "string list \<Rightarrow> (size_t \<times> ChangelogFileDescription) list \<Rightarrow>
    error + (size_t \<times> ChangelogFileDescription) list" where
  "scan_directory [] segs = Inr segs"
| "scan_directory (p # ps) segs =
     (case getChangelogFileDescription p of
        Inl e \<Rightarrow> Inl e
      | Inr file_description \<Rightarrow>
          scan_directory ps (m_assign (from_log_idx file_description) file_description segs))"

text \<open>
  The constructor. \<open>d\<close> holds the contents of the files and \<open>listing\<close> is what the
  directory iterator yields: the paths of the files in the directory. An exception of
  the constructor leaves no object behind.
\<close>

definition new_Changelog :: "disk \<Rightarrow> string list \<Rightarrow> string \<Rightarrow> size_t \<Rightarrow> error + Changelog" where
  "new_Changelog d listing changelogs_dir0 rotate_interval0 =
     (case scan_directory listing [] of
        Inl e \<Rightarrow> Inl e
      | Inr segs \<Rightarrow>
          Inr \<lparr>changelogs_dir = changelogs_dir0, rotate_interval = rotate_interval0,
               existing_changelogs = segs, logs = [], index_to_start_pos = [], start_index = 0,
               current_writer = None, disk = d, created = 0\<rparr>)"

section \<open>Test scenarios\<close>

text \<open>A caller appending the entries \<open>es\<close> at the consecutive indices \<open>idx\<close>,
  \<open>idx + 1\<close>, ...\<close>

fun append_seq :: "(bytes \<Rightarrow> 128 word) \<Rightarrow> Changelog \<Rightarrow> size_t \<Rightarrow> log_entry list \<Rightarrow> bool \<Rightarrow> Changelog result" where
  "append_seq H st idx [] force_sync = Inr st"
| "append_seq H st idx (e # es) force_sync =
     (case appendEntry H st idx e force_sync of
        Inl x \<Rightarrow> Inl x
      | Inr st' \<Rightarrow> append_seq H st' (idx + 1) es force_sync)"

text \<open>Opening a changelog: the constructor, then recovery.\<close>

definition open_changelog :: "(bytes \<Rightarrow> 128 word) \<Rightarrow> disk \<Rightarrow> string list \<Rightarrow> string \<Rightarrow> size_t \<Rightarrow> size_t \<Rightarrow>
    error + Changelog" where
  "open_changelog H d listing dir R from_idx =
     (case new_Changelog d listing dir R of
        Inl e \<Rightarrow> Inl e
      | Inr st \<Rightarrow> (case readChangelogAndInitWriter H st from_idx of
                     Inl (e, st') \<Rightarrow> Inl e
                   | Inr st' \<Rightarrow> Inr st'))"

definition outcome :: "Changelog result \<Rightarrow> error + Changelog" where
  "outcome r = (case r of Inl (e, st) \<Rightarrow> Inl e | Inr st \<Rightarrow> Inr st)"

definition blank_changelog :: Changelog where
  "blank_changelog =
     \<lparr>changelogs_dir = [], rotate_interval = 0, existing_changelogs = [], logs = [],
      index_to_start_pos = [], start_index = 0, current_writer = None, disk = Map.empty,
      created = 0\<rparr>"

definition state_of :: "error + Changelog \<Rightarrow> Changelog" where
  "state_of r = (case r of Inl e \<Rightarrow> blank_changelog | Inr st \<Rightarrow> st)"

text \<open>A stand-in checksum for running the model, and entries with empty blobs.\<close>

definition length_checksum :: "bytes \<Rightarrow> 128 word" where
  "length_checksum bs = of_nat (length bs)"

definition entry_with_term :: "64 word \<Rightarrow> log_entry" where
  "entry_with_term t =
     \<lparr>get_term = t, get_buf_ptr = Some [], get_val_type = 0, object = Foreign 0\<rparr>"

text \<open>Scenario S1 of the testable properties: rotate interval 3, entries 1..7 with the
  terms 10, 10, 11, 11, 11, 12, 12, starting from an empty directory.\<close>

definition scenario_S1 :: "error + Changelog" where
  "scenario_S1 =
     (case open_changelog length_checksum Map.empty [] ''logs'' 3 1 of
        Inl e \<Rightarrow> Inl e
      | Inr st \<Rightarrow> outcome (append_seq length_checksum st 1
                   (map entry_with_term [10, 10, 11, 11, 11, 12, 12]) True))"

definition state_S1 :: Changelog where
  "state_S1 = state_of scenario_S1"

text \<open>
  A restart with a changed rotate interval: five entries are written with rotate
  interval 4 (segments 1..4 and 5..8), the changelog is opened again on the same
  directory with rotate interval 1, and entry 6 is appended.
\<close>

definition scenario_first_run :: "error + Changelog" where
  "scenario_first_run =
     (case open_changelog length_checksum Map.empty [] ''logs'' 4 1 of
        Inl e \<Rightarrow> Inl e
      | Inr st \<Rightarrow> outcome (append_seq length_checksum st 1
                   (map entry_with_term [1, 1, 1, 1, 1]) True))"

definition scenario_restart :: "error + Changelog" where
  "scenario_restart =
     (case open_changelog length_checksum (disk (state_of scenario_first_run))
             [''logs/changelog_1_4.bin'', ''logs/changelog_5_8.bin''] ''logs'' 1 1 of
        Inl e \<Rightarrow> Inl e
      | Inr st \<Rightarrow> outcome (appendEntry length_checksum st 6 (entry_with_term 2) True))"

definition state_restart :: Changelog where
  "state_restart = state_of scenario_restart"

section \<open>Outcomes of operations\<close>


definition result_state :: "Changelog result \<Rightarrow> Changelog" where
  "result_state r = (case r of Inl (e, st) \<Rightarrow> st | Inr st \<Rightarrow> st)"


section \<open>Properties of the ordered maps\<close>

lemma m_find_assign: "m_find k' (m_assign k v m) = (if k' = k then Some v else m_find k' m)"
  by (induction m) (auto simp: m_find_def)

lemma keys_m_assign: "set (keys (m_assign k v m)) = insert k (set (keys m))"
  by (induction k v m rule: m_assign.induct) (auto simp: keys_def)

lemma m_find_None_iff: "m_find k m = None \<longleftrightarrow> k \<notin> set (keys m)"
  by (simp add: m_find_def keys_def map_of_eq_None_iff)

lemma makeClone_Inr:
  "makeClone n e = Inr c \<Longrightarrow> c = e\<lparr>object := Created n\<rparr> \<and> get_buf_ptr e \<noteq> None"
  by (auto simp: makeClone_def split: option.splits)

lemma makeClone_present:
  "get_buf_ptr e \<noteq> None \<Longrightarrow> makeClone n e = Inr (e\<lparr>object := Created n\<rparr>)"
  by (auto simp: makeClone_def split: option.splits)


section \<open>Appending\<close>

lemma rotate_fields [simp]:
  "logs (rotate st n) = logs st"
  "index_to_start_pos (rotate st n) = index_to_start_pos st"
  "start_index (rotate st n) = start_index st"
  "rotate_interval (rotate st n) = rotate_interval st"
  "changelogs_dir (rotate st n) = changelogs_dir st"
  "created (rotate st n) = created st"
  by (simp_all add: rotate_def Let_def split: prod.splits)

lemma rotate_writer:
  "current_writer (rotate st n) =
     Some \<lparr>filepath = formatChangelogPath (changelogs_dir st)
               \<lparr>prefix = DEFAULT_PREFIX, from_log_idx = n,
                to_log_idx = n + rotate_interval st - 1, path = []\<rparr>,
           buf_count = 0, entries_written = 0, writer_start_index = n\<rparr>"
  by (simp add: rotate_def Let_def new_ChangelogWriter_def)

text \<open>
  C9. When the index already has an offset, \<open>appendEntry\<close> throws \<open>LOGICAL_ERROR\<close>, and
  in the state it leaves behind \<open>logs\<close> and \<open>index_to_start_pos\<close> are what they were
  before the call.
\<close>

theorem appendEntry_duplicate:
  assumes "m_find idx (index_to_start_pos st) \<noteq> None"
  shows "\<exists>st'. appendEntry H st idx e force_sync = Inl (LOGICAL_ERROR, st') \<and>
               logs st' = logs st \<and> index_to_start_pos st' = index_to_start_pos st"
proof (cases "current_writer st")
  case None
  then show ?thesis by (simp add: appendEntry_def)
next
  case (Some w0)
  then show ?thesis
    using assms
    by (auto simp: appendEntry_def Let_def rotate_writer m_try_emplace_def appendRecord_def
             split: prod.splits option.splits)
qed

theorem appendEntry_duplicate_witness:
  "m_find 5 (index_to_start_pos state_S1) \<noteq> None \<and>
   (\<exists>st'. appendEntry length_checksum state_S1 5 (entry_with_term 99) True = Inl (LOGICAL_ERROR, st') \<and>
          logs st' = logs state_S1 \<and> index_to_start_pos st' = index_to_start_pos state_S1)"
proof -
  have h: "m_find 5 (index_to_start_pos state_S1) \<noteq> None"
    by code_simp
  show ?thesis
    using h appendEntry_duplicate [OF h] by blast
qed


section \<open>Compaction: what is removed\<close>

lemma remove_files_apply:
  "remove_files d segs p = (if p \<in> set (map (path \<circ> snd) segs) then None else d p)"
  unfolding remove_files_def
  by (induction segs arbitrary: d) (auto simp: remove_file_def)

lemma compact_loop_segs:
  "fst (compact_loop segs offs d u) = dropWhile (\<lambda>p. to_log_idx (snd p) \<le> u) segs"
  by (induction segs offs d u rule: compact_loop.induct) auto

lemma compact_loop_disk:
  "snd (snd (compact_loop segs offs d u)) =
     remove_files d (takeWhile (\<lambda>p. to_log_idx (snd p) \<le> u) segs)"
  by (induction segs offs d u rule: compact_loop.induct) (auto simp: remove_files_def)

lemma m_find_erase: "m_find k' (m_erase k m) = (if k' = k then None else m_find k' m)"
  unfolding m_find_def m_erase_def
  by (induction m) auto

lemma erase_range_find:
  "m_find k (erase_range offs idx to_idx) = None \<or>
   m_find k (erase_range offs idx to_idx) = m_find k offs"
  by (induction offs idx to_idx rule: erase_range.induct)
     (subst (1 2) erase_range.simps, auto simp: m_find_erase split: option.splits)

lemma erase_range_above:
  "to_idx < k \<Longrightarrow> m_find k (erase_range offs idx to_idx) = m_find k offs"
  by (induction offs idx to_idx rule: erase_range.induct)
     (subst erase_range.simps, auto simp: m_find_erase split: option.splits)

lemma compact_loop_offs_find:
  "m_find k (fst (snd (compact_loop segs offs d u))) = None \<or>
   m_find k (fst (snd (compact_loop segs offs d u))) = m_find k offs"
proof (induction segs offs d u rule: compact_loop.induct)
  case (1 offs d u)
  then show ?case by simp
next
  case (2 k' desc rest offs d u)
  then show ?case
    using erase_range_find [of k offs "from_log_idx desc" "to_log_idx desc"]
    by auto
qed

lemma compact_loop_offs_above:
  "u < k \<Longrightarrow> m_find k (fst (snd (compact_loop segs offs d u))) = m_find k offs"
  by (induction segs offs d u rule: compact_loop.induct) (auto simp: erase_range_above)

lemma dropWhile_sorted_filter:
  "sorted (map f xs) \<Longrightarrow> dropWhile (\<lambda>x. f x \<le> u) xs = filter (\<lambda>x. u < f x) xs"
proof (induction xs)
  case Nil
  then show ?case by simp
next
  case (Cons x xs)
  show ?case
  proof (cases "f x \<le> u")
    case True
    with Cons show ?thesis by auto
  next
    case False
    with Cons.prems have "\<forall>y \<in> set xs. u < f y"
      by auto
    then have "filter (\<lambda>x. u < f x) xs = xs"
      by (simp add: filter_id_conv)
    with False show ?thesis by auto
  qed
qed

lemma ordered_sorted_keys: "ordered m \<Longrightarrow> sorted (map fst m)"
  by (simp add: ordered_def keys_def strict_sorted_imp_sorted)

text \<open>
  C7 (amended). After \<open>compact\<close>, \<open>start_index\<close> is \<open>up_to + 1\<close>. The loop over the
  segments stops at the first segment whose \<open>TO\<close> exceeds \<open>up_to\<close>: the segments removed
  (descriptor and file) are the leading ones with \<open>TO \<le> up_to\<close>, and every other segment is
  kept with its file as it was. These are all segments with \<open>TO \<le> up_to\<close> when \<open>TO\<close> ascends
  with \<open>FROM\<close>. Every key \<open>\<le> up_to\<close> is erased from \<open>logs\<close>.
\<close>

theorem compact_effect:
  assumes "distinct (map (path \<circ> snd) (existing_changelogs st))"
  shows "start_index (compact st u) = u + 1 \<and>
     existing_changelogs (compact st u) =
       dropWhile (\<lambda>p. to_log_idx (snd p) \<le> u) (existing_changelogs st) \<and>
     (\<forall>p \<in> set (takeWhile (\<lambda>p. to_log_idx (snd p) \<le> u) (existing_changelogs st)).
        disk (compact st u) (path (snd p)) = None) \<and>
     (\<forall>p \<in> set (existing_changelogs (compact st u)).
        disk (compact st u) (path (snd p)) = disk st (path (snd p))) \<and>
     logs (compact st u) = dropWhile (\<lambda>p. fst p \<le> u) (logs st) \<and>
     (sorted (map (to_log_idx \<circ> snd) (existing_changelogs st)) \<longrightarrow>
        existing_changelogs (compact st u) =
          filter (\<lambda>p. u < to_log_idx (snd p)) (existing_changelogs st)) \<and>
     (ordered (logs st) \<longrightarrow> logs (compact st u) = filter (\<lambda>p. u < fst p) (logs st))"
proof -
  let ?segs = "existing_changelogs st"
  let ?gone = "takeWhile (\<lambda>p. to_log_idx (snd p) \<le> u) ?segs"
  let ?kept = "dropWhile (\<lambda>p. to_log_idx (snd p) \<le> u) ?segs"
  obtain segs' offs' d' where cl:
    "compact_loop ?segs (index_to_start_pos st) (disk st) u = (segs', offs', d')"
    by (cases "compact_loop ?segs (index_to_start_pos st) (disk st) u") auto
  have segs': "segs' = ?kept"
    using compact_loop_segs [of ?segs "index_to_start_pos st" "disk st" u] cl by simp
  have d': "d' = remove_files (disk st) ?gone"
    using compact_loop_disk [of ?segs "index_to_start_pos st" "disk st" u] cl by simp
  have c1: "start_index (compact st u) = u + 1"
    by (simp add: compact_def cl)
  have c2: "existing_changelogs (compact st u) = ?kept"
    by (simp add: compact_def cl segs')
  have cd: "disk (compact st u) = remove_files (disk st) ?gone"
    by (simp add: compact_def cl d')
  have c3: "\<forall>p \<in> set ?gone. disk (compact st u) (path (snd p)) = None"
    by (auto simp: cd remove_files_apply)
  have split: "map (path \<circ> snd) ?segs = map (path \<circ> snd) ?gone @ map (path \<circ> snd) ?kept"
    by (metis map_append takeWhile_dropWhile_id)
  have "set (map (path \<circ> snd) ?gone) \<inter> set (map (path \<circ> snd) ?kept) = {}"
    using assms unfolding split by simp
  then have c4: "\<forall>p \<in> set (existing_changelogs (compact st u)).
        disk (compact st u) (path (snd p)) = disk st (path (snd p))"
    unfolding c2 cd remove_files_apply by auto
  have c5: "logs (compact st u) = dropWhile (\<lambda>p. fst p \<le> u) (logs st)"
    by (simp add: compact_def cl upper_bound_def)
  have c6: "sorted (map (to_log_idx \<circ> snd) ?segs) \<longrightarrow>
        existing_changelogs (compact st u) = filter (\<lambda>p. u < to_log_idx (snd p)) ?segs"
    unfolding c2 using dropWhile_sorted_filter [of "to_log_idx \<circ> snd" ?segs u] by simp
  have c7: "ordered (logs st) \<longrightarrow> logs (compact st u) = filter (\<lambda>p. u < fst p) (logs st)"
    unfolding c5 using dropWhile_sorted_filter [of fst "logs st" u] ordered_sorted_keys by auto
  show ?thesis
    using c1 c2 c3 c4 c5 c6 c7 by blast
qed


theorem compact_effect_witness:
  "distinct (map (path \<circ> snd) (existing_changelogs state_S1)) \<and>
   sorted (map (to_log_idx \<circ> snd) (existing_changelogs state_S1)) \<and>
   ordered (logs state_S1) \<and>
   start_index (compact state_S1 3) = 4 \<and>
   keys (existing_changelogs (compact state_S1 3)) = [4, 7] \<and>
   disk (compact state_S1 3) ''logs/changelog_1_3.bin'' = None \<and>
   disk (compact state_S1 3) ''logs/changelog_4_6.bin'' = disk state_S1 ''logs/changelog_4_6.bin'' \<and>
   keys (logs (compact state_S1 3)) = [4, 5, 6, 7]"
proof -
  have h: "distinct (map (path \<circ> snd) (existing_changelogs state_S1))"
    by code_simp
  have s: "sorted (map (to_log_idx \<circ> snd) (existing_changelogs state_S1))"
    by code_simp
  have ord: "ordered (logs state_S1)"
    by code_simp
  note t = compact_effect [OF h, of 3]
  have gone: "(1, \<lparr>prefix = ''changelog'', from_log_idx = 1, to_log_idx = 3,
                   path = ''logs/changelog_1_3.bin''\<rparr>)
              \<in> set (takeWhile (\<lambda>p. to_log_idx (snd p) \<le> 3) (existing_changelogs state_S1))"
    by code_simp
  have kept_segs: "filter (\<lambda>p. 3 < to_log_idx (snd p)) (existing_changelogs state_S1) =
      [(4, \<lparr>prefix = ''changelog'', from_log_idx = 4, to_log_idx = 6,
            path = ''logs/changelog_4_6.bin''\<rparr>),
       (7, \<lparr>prefix = ''changelog'', from_log_idx = 7, to_log_idx = 9,
            path = ''logs/changelog_7_9.bin''\<rparr>)]"
    by code_simp
  have kept_logs: "keys (filter (\<lambda>p. 3 < fst p) (logs state_S1)) = [4, 5, 6, 7]"
    by code_simp
  have segs: "existing_changelogs (compact state_S1 3) =
      filter (\<lambda>p. 3 < to_log_idx (snd p)) (existing_changelogs state_S1)"
    using t s by blast
  have c1: "start_index (compact state_S1 3) = 4"
    using t by simp
  have c2: "keys (existing_changelogs (compact state_S1 3)) = [4, 7]"
    unfolding segs kept_segs by (simp add: keys_def)
  have c3: "disk (compact state_S1 3) ''logs/changelog_1_3.bin'' = None"
    using t gone by fastforce
  have c4: "disk (compact state_S1 3) ''logs/changelog_4_6.bin'' = disk state_S1 ''logs/changelog_4_6.bin''"
    using t unfolding segs kept_segs by simp
  have "logs (compact state_S1 3) = filter (\<lambda>p. 3 < fst p) (logs state_S1)"
    using t ord by blast
  then have c5: "keys (logs (compact state_S1 3)) = [4, 5, 6, 7]"
    using kept_logs by simp
  show ?thesis
    using h s ord c1 c2 c3 c4 c5 by blast
qed

text \<open>
  C7 as stated fails after a restart with a smaller rotate interval: the segments are
  1..4, 5..8 and 6..6, and \<open>compact 6\<close> stops at 5..8, so that 6..6 and its file stay.
\<close>

theorem compact_keeps_later_full_segment:
  "map (to_log_idx \<circ> snd) (existing_changelogs (compact state_restart 6)) = [8, 6] \<and>
   disk (compact state_restart 6) ''logs/changelog_6_6.bin'' \<noteq> None"
  by code_simp



section \<open>Reopening an earlier segment in \<open>writeAt\<close>\<close>

text \<open>
  C1. After scenario S1 (segments 1..3, 4..6, 7..9), \<open>writeAt 5\<close> reopens the file of the
  segment 4..6 that contains index 5 and sets the counter to 3, but the start index of the
  new writer is 7, the key of the segment found by \<open>lower_bound\<close>, and not 4.
\<close>

theorem writeAt_reopen_start_index:
  "map_sum id (\<lambda>(w, d). (filepath w, writer_start_index w, entries_written w))
     (reopen_for_rollback state_S1 5) = Inr (''logs/changelog_4_6.bin'', 7, 3) \<and>
   map_option writer_start_index
     (current_writer (result_state (writeAt length_checksum state_S1 5 (entry_with_term 99) True)))
     = Some 7"
  by code_simp

section \<open>The key sets of the two in-memory maps\<close>


definition entries_have_offsets :: "Changelog \<Rightarrow> bool" where
  "entries_have_offsets st = (set (keys (logs st)) \<subseteq> set (keys (index_to_start_pos st)))"





lemma ordered_Cons: "ordered ((a, b) # m) \<longleftrightarrow> (\<forall>k \<in> set (keys m). a < k) \<and> ordered m"
  by (auto simp: ordered_def keys_def)

lemma ordered_m_assign: "ordered m \<Longrightarrow> ordered (m_assign k v m)"
proof (induction k v m rule: m_assign.induct)
  case (1 k v)
  then show ?case by (simp add: ordered_def keys_def)
next
  case (2 k v a b ps)
  then show ?case
    by (auto simp: ordered_Cons keys_m_assign) (auto simp: keys_def)
qed

lemma ordered_filter: "ordered m \<Longrightarrow> ordered (filter P m)"
  unfolding ordered_def keys_def
  by (induction m) auto

lemma takeWhile_ordered_filter:
  "ordered m \<Longrightarrow> takeWhile (\<lambda>p. fst p < k) m = filter (\<lambda>p. fst p < k) m"
proof (induction m)
  case Nil
  then show ?case by simp
next
  case (Cons x m)
  obtain a b where x: "x = (a, b)" by (cases x)
  show ?case
  proof (cases "a < k")
    case True
    with Cons x show ?thesis by (auto simp: ordered_Cons)
  next
    case False
    with Cons.prems x have "\<forall>p \<in> set m. \<not> fst p < k"
      by (fastforce simp: ordered_Cons keys_def)
    then have "filter (\<lambda>p. fst p < k) m = []"
      by (simp add: filter_empty_conv)
    with False x show ?thesis by simp
  qed
qed

lemma dropWhile_ordered_filter:
  "ordered m \<Longrightarrow> dropWhile (\<lambda>p. fst p < k) m = filter (\<lambda>p. \<not> fst p < k) m"
proof (induction m)
  case Nil
  then show ?case by simp
next
  case (Cons x m)
  obtain a b where x: "x = (a, b)" by (cases x)
  show ?case
  proof (cases "a < k")
    case True
    with Cons x show ?thesis by (auto simp: ordered_Cons)
  next
    case False
    with Cons.prems x have "\<forall>p \<in> set m. \<not> fst p < k"
      by (fastforce simp: ordered_Cons keys_def)
    then have "filter (\<lambda>p. \<not> fst p < k) m = m"
      by (simp add: filter_id_conv)
    with False x show ?thesis by simp
  qed
qed

lemma m_find_erase_keys:
  "m_find k (erase_keys removed m) = (if k \<in> fst ` set removed then None else m_find k m)"
  unfolding erase_keys_def
  by (induction removed arbitrary: m) (auto simp: m_find_erase)

lemma keys_erase_keys:
  "set (keys (erase_keys removed m)) = set (keys m) - fst ` set removed"
proof -
  have "\<And>k. k \<in> set (keys (erase_keys removed m)) \<longleftrightarrow> k \<in> set (keys m) - fst ` set removed"
    using m_find_erase_keys [of _ removed m] m_find_None_iff
    by (metis DiffD1 DiffD2 DiffI)
  then show ?thesis by blast
qed







section \<open>What the reader does with one record\<close>

text \<open>
  The three checks that a decoded record has to pass: its index follows the previous one
  (or it is the first record of the file), its checksum is that of its blob, and its index
  is not among the indices \<open>present\<close> in \<open>logs\<close>. When one of them fails the reader throws.
\<close>

definition record_accepted :: "(bytes \<Rightarrow> 128 word) \<Rightarrow> size_t \<Rightarrow> size_t set \<Rightarrow>
    ChangelogRecordHeader \<Rightarrow> bytes \<Rightarrow> bool" where
  "record_accepted H prev present h buffer \<longleftrightarrow>
     (prev = 0 \<or> prev + 1 = index h) \<and> H buffer = blob_checksum h \<and> index h \<notin> present"

definition entry_of_record :: "ChangelogRecordHeader \<Rightarrow> bytes \<Rightarrow> nat \<Rightarrow> log_entry" where
  "entry_of_record h buffer serial =
     \<lparr>get_term = hterm h, get_buf_ptr = Some buffer, get_val_type = value_type h,
      object = Created serial\<rparr>"

lemma read_loop_eof:
  "read_loop H [] pos prev start lgs offs res serial = (res, lgs, offs, serial)"
  by (simp add: read_loop.simps)

lemma read_loop_torn:
  "rest \<noteq> [] \<Longrightarrow> read_record rest = None \<Longrightarrow>
   read_loop H rest pos prev start lgs offs res serial =
     (res\<lparr>last_position := pos, error := True\<rparr>, lgs, offs, serial)"
  by (simp add: read_loop.simps)

lemma read_loop_rejected:
  "rest \<noteq> [] \<Longrightarrow> read_record rest = Some (h, buffer, rest') \<Longrightarrow>
   \<not> record_accepted H prev (set (keys lgs)) h buffer \<Longrightarrow>
   read_loop H rest pos prev start lgs offs res serial =
     (res\<lparr>last_position := pos, error := True\<rparr>, lgs, offs, serial)"
  by (subst read_loop.simps)
     (auto simp: record_accepted_def m_count_def m_find_None_iff Let_def)

lemma read_loop_accepted:
  "rest \<noteq> [] \<Longrightarrow> read_record rest = Some (h, buffer, rest') \<Longrightarrow>
   record_accepted H prev (set (keys lgs)) h buffer \<Longrightarrow>
   read_loop H rest pos prev start lgs offs res serial =
     read_loop H rest' (pos + header_size + length buffer) (index h) start
       (if index h < start then lgs else m_assign (index h) (entry_of_record h buffer serial) lgs)
       (if index h < start then offs else m_assign (index h) pos offs)
       (res\<lparr>last_position := pos, entries_read := entries_read res + 1\<rparr>)
       (if index h < start then serial else serial + 1)"
  by (subst read_loop.simps)
     (auto simp: record_accepted_def m_count_def m_find_None_iff m_try_emplace_def
                 entry_of_record_def Let_def)

section \<open>Growth of the two maps\<close>

text \<open>
  \<open>extends\<close> relates the two maps and the number of objects created before and after a
  run that only adds: the same keys are added to both maps, and every stored entry is
  either one that was stored before or an object created during the run, with a buffer.
\<close>

definition extends :: "(size_t \<times> log_entry) list \<Rightarrow> (size_t \<times> off_t) list \<Rightarrow> nat \<Rightarrow>
    (size_t \<times> log_entry) list \<Rightarrow> (size_t \<times> off_t) list \<Rightarrow> nat \<Rightarrow> bool" where
  "extends lgs offs serial lgs' offs' serial' \<longleftrightarrow>
     (ordered lgs \<longrightarrow> ordered lgs') \<and> serial \<le> serial' \<and>
     (\<exists>A. set (keys lgs') = set (keys lgs) \<union> A \<and> set (keys offs') = set (keys offs) \<union> A) \<and>
     (\<forall>p \<in> set lgs'. p \<in> set lgs \<or>
        get_buf_ptr (snd p) \<noteq> None \<and> (\<exists>n. serial \<le> n \<and> n < serial' \<and> object (snd p) = Created n))"

lemma extends_refl: "extends lgs offs serial lgs offs serial"
  unfolding extends_def by (auto intro: exI [of _ "{}"])

lemma extends_trans:
  assumes "extends l1 o1 s1 l2 o2 s2" and "extends l2 o2 s2 l3 o3 s3"
  shows "extends l1 o1 s1 l3 o3 s3"
proof -
  from assms(1) obtain A where A: "set (keys l2) = set (keys l1) \<union> A"
    "set (keys o2) = set (keys o1) \<union> A"
    unfolding extends_def by blast
  from assms(2) obtain B where B: "set (keys l3) = set (keys l2) \<union> B"
    "set (keys o3) = set (keys o2) \<union> B"
    unfolding extends_def by blast
  have k: "\<exists>C. set (keys l3) = set (keys l1) \<union> C \<and> set (keys o3) = set (keys o1) \<union> C"
    using A B by (intro exI [of _ "A \<union> B"]) auto
  have p: "\<forall>p \<in> set l3. p \<in> set l1 \<or>
        get_buf_ptr (snd p) \<noteq> None \<and> (\<exists>n. s1 \<le> n \<and> n < s3 \<and> object (snd p) = Created n)"
  proof
    fix p assume "p \<in> set l3"
    with assms(2) have "p \<in> set l2 \<or>
        get_buf_ptr (snd p) \<noteq> None \<and> (\<exists>n. s2 \<le> n \<and> n < s3 \<and> object (snd p) = Created n)"
      unfolding extends_def by blast
    moreover have "s1 \<le> s2" "s2 \<le> s3"
      using assms unfolding extends_def by auto
    moreover have "p \<in> set l2 \<Longrightarrow> p \<in> set l1 \<or>
        get_buf_ptr (snd p) \<noteq> None \<and> (\<exists>n. s1 \<le> n \<and> n < s2 \<and> object (snd p) = Created n)"
      using assms(1) unfolding extends_def by blast
    ultimately show "p \<in> set l1 \<or>
        get_buf_ptr (snd p) \<noteq> None \<and> (\<exists>n. s1 \<le> n \<and> n < s3 \<and> object (snd p) = Created n)"
      by (meson le_trans less_le_trans)
  qed
  show ?thesis
    unfolding extends_def using assms k p unfolding extends_def by auto
qed

lemma set_m_assign_subset: "set (m_assign k v m) \<subseteq> insert (k, v) (set m)"
  by (induction k v m rule: m_assign.induct) auto

lemma extends_insert:
  assumes "get_buf_ptr e \<noteq> None" and "object e = Created serial"
  shows "extends lgs offs serial (m_assign k e lgs) (m_assign k off offs) (serial + 1)"
proof -
  have "\<forall>p \<in> set (m_assign k e lgs). p \<in> set lgs \<or>
        get_buf_ptr (snd p) \<noteq> None \<and>
        (\<exists>n. serial \<le> n \<and> n < serial + 1 \<and> object (snd p) = Created n)"
    using set_m_assign_subset [of k e lgs] assms by auto
  moreover have "\<exists>A. set (keys (m_assign k e lgs)) = set (keys lgs) \<union> A \<and>
                     set (keys (m_assign k off offs)) = set (keys offs) \<union> A"
    by (intro exI [of _ "{k}"]) (simp add: keys_m_assign)
  ultimately show ?thesis
    unfolding extends_def by (simp add: ordered_m_assign)
qed

lemma read_loop_extends:
  assumes "read_loop H rest pos prev start lgs offs res serial = (res', lgs', offs', serial')"
  shows "extends lgs offs serial lgs' offs' serial'"
  using assms
proof (induction "length rest" arbitrary: rest pos prev lgs offs res serial rule: less_induct)
  case less
  show ?case
  proof (cases "rest = []")
    case True
    with less.prems show ?thesis
      by (simp add: read_loop_eof extends_refl)
  next
    case False
    show ?thesis
    proof (cases "read_record rest")
      case None
      with False less.prems show ?thesis
        by (simp add: read_loop_torn extends_refl)
    next
      case (Some t)
      obtain h buffer rest' where t: "read_record rest = Some (h, buffer, rest')"
        using Some by (cases t) auto
      show ?thesis
      proof (cases "record_accepted H prev (set (keys lgs)) h buffer")
        case False
        with \<open>rest \<noteq> []\<close> t less.prems show ?thesis
          by (simp add: read_loop_rejected extends_refl)
      next
        case True
        let ?lgs = "if index h < start then lgs else m_assign (index h) (entry_of_record h buffer serial) lgs"
        let ?offs = "if index h < start then offs else m_assign (index h) pos offs"
        let ?serial = "if index h < start then serial else serial + 1"
        have run: "read_loop H rest' (pos + header_size + length buffer) (index h) start ?lgs ?offs
               (res\<lparr>last_position := pos, entries_read := entries_read res + 1\<rparr>) ?serial
               = (res', lgs', offs', serial')"
          using read_loop_accepted [OF \<open>rest \<noteq> []\<close> t True] less.prems(1) by simp
        have "extends lgs offs serial (m_assign (index h) (entry_of_record h buffer serial) lgs)
                (m_assign (index h) pos offs) (serial + 1)"
          by (rule extends_insert) (simp_all add: entry_of_record_def)
        then have one: "extends lgs offs serial ?lgs ?offs ?serial"
          by (simp add: extends_refl)
        from one less.hyps [OF read_record_shorter [OF t] run] show ?thesis
          by (rule extends_trans)
      qed
    qed
  qed
qed

text \<open>Every way out of the replay loop, by an exception or not, leaves the maps grown.\<close>

definition replay_outcome :: "(error \<times> replay_state) + replay_state \<times> bool \<Rightarrow> replay_state" where
  "replay_outcome r = (case r of Inl (e, rs) \<Rightarrow> rs | Inr (rs, b) \<Rightarrow> rs)"

lemma replay_extends:
  "extends (r_logs rs) (r_offsets rs) (r_created rs)
     (r_logs (replay_outcome (replay H d from_idx segs rs)))
     (r_offsets (replay_outcome (replay H d from_idx segs rs)))
     (r_created (replay_outcome (replay H d from_idx segs rs)))"
proof (induction segs arbitrary: rs)
  case Nil
  then show ?case by (simp add: replay_outcome_def extends_refl)
next
  case (Cons seg segs)
  obtain start_idx desc where seg: "seg = (start_idx, desc)"
    by (cases seg)
  let ?rs1 = "rs\<lparr>entries_in_last := to_log_idx desc - from_log_idx desc + 1\<rparr>"
  show ?case
  proof (cases "to_log_idx desc \<ge> from_idx")
    case False
    then have "replay H d from_idx (seg # segs) rs = replay H d from_idx segs ?rs1"
      using seg by (simp add: Let_def)
    with Cons.IH [of ?rs1] show ?thesis by simp
  next
    case True
    show ?thesis
    proof (cases "d (path desc)")
      case None
      with True seg show ?thesis
        by (simp add: Let_def replay_outcome_def extends_refl)
    next
      case (Some content)
      obtain result lgs offs serial where rd:
        "readChangelog H content (r_logs rs) from_idx (r_offsets rs) (r_created rs)
           = (result, lgs, offs, serial)"
        by (cases "readChangelog H content (r_logs rs) from_idx (r_offsets rs) (r_created rs)") auto
      have one: "extends (r_logs rs) (r_offsets rs) (r_created rs) lgs offs serial"
        using rd read_loop_extends unfolding readChangelog_def by blast
      let ?rs2 = "?rs1\<lparr>r_logs := lgs, r_offsets := offs, r_result := result, r_created := serial,
                        total_read := total_read ?rs1 + entries_read result\<rparr>"
      show ?thesis
      proof (cases "entries_read result < entries_in_last ?rs2")
        case short: True
        with True seg Some rd
        have "replay H d from_idx (seg # segs) rs = Inr (?rs2\<lparr>incomplete_log_idx := start_idx\<rparr>, True)"
          by (simp add: Let_def)
        with one show ?thesis by (simp add: replay_outcome_def)
      next
        case False
        with True seg Some rd
        have "replay H d from_idx (seg # segs) rs = replay H d from_idx segs ?rs2"
          by (simp add: Let_def)
        with Cons.IH [of ?rs2] one show ?thesis
          by (auto intro: extends_trans)
      qed
    qed
  qed
qed

lemma recover_maps:
  "\<exists>rs. rs = replay_outcome (replay H (disk st) from_idx (existing_changelogs st)
             \<lparr>r_logs = logs st, r_offsets = index_to_start_pos st, total_read = 0,
              entries_in_last = 0, incomplete_log_idx = 0,
              r_result = \<lparr>entries_read = 0, last_position = 0, error = False\<rparr>,
              r_created = created st\<rparr>) \<and>
        logs (result_state (readChangelogAndInitWriter H st from_idx)) = r_logs rs \<and>
        index_to_start_pos (result_state (readChangelogAndInitWriter H st from_idx)) = r_offsets rs \<and>
        created (result_state (readChangelogAndInitWriter H st from_idx)) = r_created rs"
  by (auto simp: readChangelogAndInitWriter_def Let_def result_state_def replay_outcome_def
                 new_ChangelogWriter_def truncateToLength_def
           split: sum.splits prod.splits if_splits)

lemma recover_extends:
  "extends (logs st) (index_to_start_pos st) (created st)
     (logs (result_state (readChangelogAndInitWriter H st from_idx)))
     (index_to_start_pos (result_state (readChangelogAndInitWriter H st from_idx)))
     (created (result_state (readChangelogAndInitWriter H st from_idx)))"
  using recover_maps [of H st from_idx]
    replay_extends [of "\<lparr>r_logs = logs st, r_offsets = index_to_start_pos st, total_read = 0,
              entries_in_last = 0, incomplete_log_idx = 0,
              r_result = \<lparr>entries_read = 0, last_position = 0, error = False\<rparr>,
              r_created = created st\<rparr>" H "disk st" from_idx "existing_changelogs st"]
  by simp


section \<open>States that the operations can reach\<close>

text \<open>
  The states of a changelog object: the constructor makes one, and every public operation
  leads from one to the next, whether it returns or throws (an operation that throws leaves
  the object in the state reached at the throw).
\<close>

inductive reachable :: "(bytes \<Rightarrow> 128 word) \<Rightarrow> Changelog \<Rightarrow> bool" for H :: "bytes \<Rightarrow> 128 word" where
  constructed: "new_Changelog d listing dir R = Inr st \<Longrightarrow> reachable H st"
| recovered: "reachable H st \<Longrightarrow>
    reachable H (result_state (readChangelogAndInitWriter H st from_idx))"
| appended: "reachable H st \<Longrightarrow>
    reachable H (result_state (appendEntry H st idx e force_sync))"
| written: "reachable H st \<Longrightarrow>
    reachable H (result_state (writeAt H st idx e force_sync))"
| ingested: "reachable H st \<Longrightarrow>
    reachable H (result_state (applyEntriesFromBuffer H st idx es force_sync))"
| compacted: "reachable H st \<Longrightarrow> reachable H (compact st up_to_log_idx)"
| entry_read: "reachable H st \<Longrightarrow> entryAt st idx = Inr (x, st') \<Longrightarrow> reachable H st'"
| range_read: "reachable H st \<Longrightarrow> getLogEntriesBetween st start end_idx = Inr (xs, st') \<Longrightarrow>
    reachable H st'"
| range_read_failed: "reachable H st \<Longrightarrow> getLogEntriesBetween st start end_idx = Inl (err, st') \<Longrightarrow>
    reachable H st'"

text \<open>
  What holds in all of them: \<open>logs\<close> is ascending, every index with an entry has an
  offset, and every stored entry has a buffer and is an object created by this code.
\<close>

definition stored_ok :: "Changelog \<Rightarrow> bool" where
  "stored_ok st \<longleftrightarrow>
     (\<forall>p \<in> set (logs st). get_buf_ptr (snd p) \<noteq> None \<and>
                           (\<exists>n. n < created st \<and> object (snd p) = Created n))"

definition consistent :: "Changelog \<Rightarrow> bool" where
  "consistent st \<longleftrightarrow> ordered (logs st) \<and> entries_have_offsets st \<and> stored_ok st"

lemma extends_consistent:
  assumes "extends (logs st) (index_to_start_pos st) (created st)
             (logs st') (index_to_start_pos st') (created st')"
    and "consistent st"
  shows "consistent st'"
proof -
  from assms(1) obtain A where A: "set (keys (logs st')) = set (keys (logs st)) \<union> A"
    "set (keys (index_to_start_pos st')) = set (keys (index_to_start_pos st)) \<union> A"
    unfolding extends_def by blast
  have o: "ordered (logs st')"
    using assms unfolding extends_def consistent_def by blast
  have i: "entries_have_offsets st'"
    using assms(2) A unfolding consistent_def entries_have_offsets_def by auto
  have le: "created st \<le> created st'"
    using assms(1) unfolding extends_def by blast
  have s: "stored_ok st'"
    unfolding stored_ok_def
  proof
    fix p assume "p \<in> set (logs st')"
    with assms(1) have "p \<in> set (logs st) \<or>
        get_buf_ptr (snd p) \<noteq> None \<and>
        (\<exists>n. created st \<le> n \<and> n < created st' \<and> object (snd p) = Created n)"
      unfolding extends_def by blast
    moreover have "p \<in> set (logs st) \<Longrightarrow>
        get_buf_ptr (snd p) \<noteq> None \<and> (\<exists>n. n < created st \<and> object (snd p) = Created n)"
      using assms(2) unfolding consistent_def stored_ok_def by blast
    ultimately show "get_buf_ptr (snd p) \<noteq> None \<and>
        (\<exists>n. n < created st' \<and> object (snd p) = Created n)"
      using le by (meson less_le_trans)
  qed
  show ?thesis
    unfolding consistent_def using o i s by simp
qed

lemma constructed_consistent:
  "new_Changelog d listing dir R = Inr st \<Longrightarrow> consistent st"
  by (auto simp: new_Changelog_def consistent_def ordered_def keys_def entries_have_offsets_def
                 stored_ok_def split: sum.splits)

lemma recover_consistent:
  "consistent st \<Longrightarrow> consistent (result_state (readChangelogAndInitWriter H st from_idx))"
  using recover_extends extends_consistent by blast

text \<open>\<open>appendEntry\<close>, whatever its outcome: the offset may have been inserted, and the
  entry is stored only after that.\<close>

lemma appendEntry_outcome:
  "\<exists>off. (index_to_start_pos (result_state (appendEntry H st idx e force_sync)) = index_to_start_pos st \<and>
          logs (result_state (appendEntry H st idx e force_sync)) = logs st \<and>
          created (result_state (appendEntry H st idx e force_sync)) = created st) \<or>
         (index_to_start_pos (result_state (appendEntry H st idx e force_sync))
            = m_assign idx off (index_to_start_pos st) \<and>
          logs (result_state (appendEntry H st idx e force_sync)) = logs st \<and>
          created (result_state (appendEntry H st idx e force_sync)) = created st) \<or>
         (index_to_start_pos (result_state (appendEntry H st idx e force_sync))
            = m_assign idx off (index_to_start_pos st) \<and>
          logs (result_state (appendEntry H st idx e force_sync))
            = m_assign idx (e\<lparr>object := Created (created st)\<rparr>) (logs st) \<and>
          get_buf_ptr e \<noteq> None \<and>
          created (result_state (appendEntry H st idx e force_sync)) = created st + 1)"
proof (cases "current_writer st")
  case None
  then show ?thesis
    by (simp add: appendEntry_def result_state_def)
next
  case (Some w0)
  then show ?thesis
    by (auto simp: appendEntry_def Let_def rotate_writer m_try_emplace_def appendRecord_def
                   result_state_def
             dest!: makeClone_Inr split: prod.splits option.splits if_splits sum.splits)
qed

lemma appendEntry_consistent:
  assumes "consistent st"
  shows "consistent (result_state (appendEntry H st idx e force_sync))"
proof -
  let ?st' = "result_state (appendEntry H st idx e force_sync)"
  from appendEntry_outcome [of H st idx e force_sync] obtain off where
    "(index_to_start_pos ?st' = index_to_start_pos st \<and> logs ?st' = logs st \<and>
      created ?st' = created st) \<or>
     (index_to_start_pos ?st' = m_assign idx off (index_to_start_pos st) \<and> logs ?st' = logs st \<and>
      created ?st' = created st) \<or>
     (index_to_start_pos ?st' = m_assign idx off (index_to_start_pos st) \<and>
      logs ?st' = m_assign idx (e\<lparr>object := Created (created st)\<rparr>) (logs st) \<and>
      get_buf_ptr e \<noteq> None \<and> created ?st' = created st + 1)"
    by blast
  then consider
    (same) "index_to_start_pos ?st' = index_to_start_pos st" "logs ?st' = logs st"
      "created ?st' = created st"
  | (offset) "index_to_start_pos ?st' = m_assign idx off (index_to_start_pos st)"
      "logs ?st' = logs st" "created ?st' = created st"
  | (stored) "index_to_start_pos ?st' = m_assign idx off (index_to_start_pos st)"
      "logs ?st' = m_assign idx (e\<lparr>object := Created (created st)\<rparr>) (logs st)"
      "get_buf_ptr e \<noteq> None" "created ?st' = created st + 1"
    by blast
  then show ?thesis
  proof cases
    case same
    with assms show ?thesis
      by (simp add: consistent_def entries_have_offsets_def stored_ok_def)
  next
    case offset
    with assms show ?thesis
      by (auto simp: consistent_def entries_have_offsets_def stored_ok_def keys_m_assign)
  next
    case stored
    have "extends (logs st) (index_to_start_pos st) (created st)
            (m_assign idx (e\<lparr>object := Created (created st)\<rparr>) (logs st))
            (m_assign idx off (index_to_start_pos st)) (created st + 1)"
      by (rule extends_insert) (simp_all add: stored(3))
    then have "extends (logs st) (index_to_start_pos st) (created st)
                 (logs ?st') (index_to_start_pos ?st') (created ?st')"
      using stored by simp
    from extends_consistent [OF this assms] show ?thesis .
  qed
qed

lemma result_state_simps:
  "result_state (Inl (err, st)) = st" "result_state (Inr st) = st"
  by (simp_all add: result_state_def)

lemma writeAt_outcome:
  assumes "P st"
    and "\<And>st''. logs st'' = before_lower_bound idx (logs st) \<Longrightarrow>
           index_to_start_pos st'' = erase_keys (lower_bound idx (logs st)) (index_to_start_pos st) \<Longrightarrow>
           created st'' = created st \<Longrightarrow>
           P (result_state (appendEntry H st'' idx e force_sync))"
  shows "P (result_state (writeAt H st idx e force_sync))"
proof (cases "m_find idx (index_to_start_pos st)")
  case None
  then show ?thesis
    using assms(1) by (simp add: writeAt_def result_state_simps)
next
  case (Some pos)
  show ?thesis
  proof (cases "current_writer st")
    case None
    then show ?thesis
      using assms(1) Some by (simp add: writeAt_def result_state_simps)
  next
    case w0: (Some w0)
    show ?thesis
    proof (cases "if idx < writer_start_index w0 then reopen_for_rollback st idx else Inr (w0, disk st)")
      case (Inl err)
      then show ?thesis
        using assms(1) Some w0 by (simp add: writeAt_def result_state_simps)
    next
      case (Inr r)
      obtain w1 d1 where r: "r = (w1, d1)"
        by (cases r)
      obtain w2 d2 where t: "truncateToLength w1 d1 pos = (w2, d2)"
        by (cases "truncateToLength w1 d1 pos")
      show ?thesis
        using Some w0 Inr r t
        by (simp add: writeAt_def Let_def assms(2))
    qed
  qed
qed

lemma writeAt_consistent:
  assumes "consistent st"
  shows "consistent (result_state (writeAt H st idx e force_sync))"
proof (rule writeAt_outcome)
  show "consistent st" by (rule assms)
next
  fix st'' :: Changelog
  assume l: "logs st'' = before_lower_bound idx (logs st)"
    and o: "index_to_start_pos st'' = erase_keys (lower_bound idx (logs st)) (index_to_start_pos st)"
    and c: "created st'' = created st"
  have ord: "ordered (logs st)"
    using assms by (simp add: consistent_def)
  have l': "logs st'' = filter (\<lambda>p. fst p < idx) (logs st)"
    using l ord by (simp add: before_lower_bound_def takeWhile_ordered_filter)
  have r: "lower_bound idx (logs st) = filter (\<lambda>p. \<not> fst p < idx) (logs st)"
    using ord by (simp add: lower_bound_def dropWhile_ordered_filter)
  have kl: "set (keys (logs st'')) = {k \<in> set (keys (logs st)). k < idx}"
    unfolding l' by (auto simp: keys_def)
  have ko: "set (keys (index_to_start_pos st'')) =
              set (keys (index_to_start_pos st)) - {k \<in> set (keys (logs st)). \<not> k < idx}"
    unfolding o r keys_erase_keys by (auto simp: keys_def)
  have "consistent st''"
    using assms unfolding consistent_def entries_have_offsets_def stored_ok_def kl ko
    by (auto simp: l' ordered_filter c)
  then show "consistent (result_state (appendEntry H st'' idx e force_sync))"
    by (rule appendEntry_consistent)
qed

lemma apply_loop_consistent:
  "consistent st \<Longrightarrow> consistent (result_state (apply_loop H st idx i es force_sync))"
proof (induction es arbitrary: st i)
  case Nil
  then show ?case by (simp add: result_state_def)
next
  case (Cons e es)
  let ?cur = "idx + of_nat i"
  let ?step = "if i = 0 \<and> m_count ?cur (logs st) \<noteq> 0
               then writeAt H st ?cur e force_sync else appendEntry H st ?cur e force_sync"
  have c: "consistent (result_state ?step)"
    using Cons.prems writeAt_consistent appendEntry_consistent by simp
  show ?case
  proof (cases ?step)
    case (Inl x)
    then have "apply_loop H st idx i (e # es) force_sync = Inl x"
      by (simp add: Let_def)
    with c Inl show ?thesis
      by (simp add: result_state_def)
  next
    case (Inr st1)
    then have "apply_loop H st idx i (e # es) force_sync = apply_loop H st1 idx (i + 1) es force_sync"
      by (simp add: Let_def)
    moreover have "consistent st1"
      using c Inr by (simp add: result_state_def)
    ultimately show ?thesis
      using Cons.IH [of st1 "i + 1"] by simp
  qed
qed

lemma compact_logs:
  "ordered (logs st) \<Longrightarrow> logs (compact st u) = filter (\<lambda>p. u < fst p) (logs st)"
  using dropWhile_sorted_filter [of fst "logs st" u] ordered_sorted_keys
  by (auto simp: compact_def upper_bound_def split: prod.splits)

lemma compact_offsets:
  "m_find k (index_to_start_pos (compact st u)) = None \<or>
   m_find k (index_to_start_pos (compact st u)) = m_find k (index_to_start_pos st)"
  "u < k \<Longrightarrow> m_find k (index_to_start_pos (compact st u)) = m_find k (index_to_start_pos st)"
  using compact_loop_offs_find [of k "existing_changelogs st" "index_to_start_pos st" "disk st" u]
    compact_loop_offs_above [of u k "existing_changelogs st" "index_to_start_pos st" "disk st"]
  by (auto simp: compact_def split: prod.splits)

lemma compact_created: "created (compact st u) = created st"
  by (simp add: compact_def split: prod.splits)

lemma compact_key_sets:
  assumes "ordered (logs st)"
  shows "set (keys (logs (compact st u))) = {k \<in> set (keys (logs st)). u < k}"
    and "{k \<in> set (keys (index_to_start_pos (compact st u))). u < k} =
         {k \<in> set (keys (index_to_start_pos st)). u < k}"
    and "set (keys (index_to_start_pos (compact st u))) \<subseteq> set (keys (index_to_start_pos st))"
proof -
  show "set (keys (logs (compact st u))) = {k \<in> set (keys (logs st)). u < k}"
    unfolding compact_logs [OF assms] by (auto simp: keys_def)
  show "{k \<in> set (keys (index_to_start_pos (compact st u))). u < k} =
         {k \<in> set (keys (index_to_start_pos st)). u < k}"
    using compact_offsets(2) [of u _ st] m_find_None_iff
    by (metis (mono_tags, lifting) Collect_cong)
  show "set (keys (index_to_start_pos (compact st u))) \<subseteq> set (keys (index_to_start_pos st))"
    using compact_offsets(1) [of _ st u] m_find_None_iff by (metis subsetI)
qed

lemma compact_consistent:
  assumes "consistent st"
  shows "consistent (compact st u)"
proof -
  have ord: "ordered (logs st)"
    using assms by (simp add: consistent_def)
  note k = compact_key_sets [OF ord, of u]
  have "ordered (logs (compact st u))"
    unfolding compact_logs [OF ord] using ord by (rule ordered_filter)
  moreover have "entries_have_offsets (compact st u)"
    using assms k(1,2) unfolding consistent_def entries_have_offsets_def by blast
  moreover have "stored_ok (compact st u)"
    using assms unfolding consistent_def stored_ok_def compact_logs [OF ord] compact_created
    by auto
  ultimately show ?thesis
    by (simp add: consistent_def)
qed

lemma entryAt_state:
  "entryAt st idx = Inr (x, st') \<Longrightarrow>
   st' = st \<or> st' = st\<lparr>created := created st + 1\<rparr>"
  by (auto simp: entryAt_def split: option.splits sum.splits)

lemma more_created_consistent:
  "consistent st \<Longrightarrow> consistent (st\<lparr>created := created st + n\<rparr>)"
  unfolding consistent_def entries_have_offsets_def stored_ok_def
  by (auto intro: less_le_trans [OF _ le_add1])

lemma entryAt_consistent:
  "consistent st \<Longrightarrow> entryAt st idx = Inr (x, st') \<Longrightarrow> consistent st'"
  using entryAt_state [of st idx x st'] more_created_consistent [of st 1] by auto

lemma between_loop_consistent:
  "consistent st \<Longrightarrow> consistent (case between_loop st i end_idx ret result_pos of
      Inl (e, st') \<Rightarrow> st' | Inr (xs, st') \<Rightarrow> st')"
proof (induction st i end_idx ret result_pos rule: between_loop.induct)
  case (1 st i end_idx ret result_pos)
  show ?case
  proof (cases "i < end_idx")
    case False
    with 1 show ?thesis
      by (subst between_loop.simps) simp
  next
    case True
    show ?thesis
    proof (cases "entryAt st i")
      case (Inl e)
      with True 1 show ?thesis
        by (subst between_loop.simps) simp
    next
      case (Inr r)
      obtain x st' where r: "r = (x, st')"
        by (cases r)
      have "consistent st'"
        using entryAt_consistent [OF "1.prems"] Inr r by blast
      from "1.IH" [OF True Inr r [symmetric] this] show ?thesis
        using True Inr r by (subst between_loop.simps) simp
    qed
  qed
qed

lemma getLogEntriesBetween_consistent:
  "consistent st \<Longrightarrow> getLogEntriesBetween st start end_idx = Inr (xs, st') \<Longrightarrow> consistent st'"
  "consistent st \<Longrightarrow> getLogEntriesBetween st start end_idx = Inl (err, st') \<Longrightarrow> consistent st'"
  using between_loop_consistent [of st start end_idx "replicate (unat (end_idx - start)) None" 0]
  by (auto simp: getLogEntriesBetween_def split: if_splits)

lemma reachable_consistent: "reachable H st \<Longrightarrow> consistent st"
proof (induction rule: reachable.induct)
  case (constructed d listing dir R st)
  then show ?case by (rule constructed_consistent)
next
  case (recovered st from_idx)
  then show ?case by (simp add: recover_consistent)
next
  case (appended st idx e force_sync)
  then show ?case by (simp add: appendEntry_consistent)
next
  case (written st idx e force_sync)
  then show ?case by (simp add: writeAt_consistent)
next
  case (ingested st idx es force_sync)
  then show ?case by (simp add: applyEntriesFromBuffer_def apply_loop_consistent)
next
  case (compacted st up_to_log_idx)
  then show ?case by (simp add: compact_consistent)
next
  case (entry_read st idx x st')
  then show ?case using entryAt_consistent by blast
next
  case (range_read st start end_idx xs st')
  then show ?case using getLogEntriesBetween_consistent(1) by blast
next
  case (range_read_failed st start end_idx err st')
  then show ?case using getLogEntriesBetween_consistent(2) by blast
qed

section \<open>The scenarios are reachable\<close>

definition returned :: "error + 'a \<Rightarrow> bool" where
  "returned r = (case r of Inl e \<Rightarrow> False | Inr x \<Rightarrow> True)"

lemma open_changelog_reachable:
  assumes "open_changelog H d listing dir R from_idx = Inr st"
  shows "reachable H st"
proof -
  from assms obtain st0 where c: "new_Changelog d listing dir R = Inr st0"
    and r: "readChangelogAndInitWriter H st0 from_idx = Inr st"
    by (auto simp: open_changelog_def split: sum.splits prod.splits)
  have "reachable H (result_state (readChangelogAndInitWriter H st0 from_idx))"
    by (rule reachable.recovered) (rule reachable.constructed [OF c])
  then show ?thesis
    by (simp add: r result_state_simps)
qed

lemma append_seq_reachable:
  "reachable H st \<Longrightarrow> append_seq H st idx es force_sync = Inr st' \<Longrightarrow> reachable H st'"
proof (induction es arbitrary: st idx)
  case Nil
  then show ?case by simp
next
  case (Cons e es)
  from Cons.prems(2) obtain st1 where a: "appendEntry H st idx e force_sync = Inr st1"
    and rest: "append_seq H st1 (idx + 1) es force_sync = Inr st'"
    by (auto split: sum.splits)
  have "reachable H (result_state (appendEntry H st idx e force_sync))"
    by (rule reachable.appended) (rule Cons.prems(1))
  then have "reachable H st1"
    by (simp add: a result_state_simps)
  from Cons.IH [OF this rest] show ?case .
qed

lemma state_S1_reachable: "reachable length_checksum state_S1"
proof -
  have "returned scenario_S1"
    by code_simp
  then obtain st0 where
    o: "open_changelog length_checksum Map.empty [] ''logs'' 3 1 = Inr st0" and
    a: "append_seq length_checksum st0 1 (map entry_with_term [10, 10, 11, 11, 11, 12, 12]) True
          = Inr state_S1"
    unfolding state_S1_def scenario_S1_def
    by (auto simp: returned_def outcome_def state_of_def split: sum.splits)
  from append_seq_reachable [OF open_changelog_reachable [OF o] a] show ?thesis .
qed



section \<open>The key sets after the operations\<close>




section \<open>Reading one entry: \<open>entryAt\<close>\<close>

text \<open>
  C10. In every state that the operations can reach, \<open>entryAt\<close> does not fail. For an
  index without an entry in \<open>logs\<close> it returns the null pointer and the state is as before.
  Otherwise it returns a new object, different from every stored entry, with the term, the
  value type and the buffer contents of the stored entry; no member of the changelog
  changes, only the count of created objects goes up by one.
\<close>

theorem entryAt_total:
  assumes "reachable H st"
  shows "case m_find idx (logs st) of
           None \<Rightarrow> entryAt st idx = Inr (None, st)
         | Some src \<Rightarrow>
             (\<exists>c. entryAt st idx = Inr (Some c, st\<lparr>created := created st + 1\<rparr>) \<and>
                  get_term c = get_term src \<and> get_val_type c = get_val_type src \<and>
                  get_buf_ptr c = get_buf_ptr src \<and> get_buf_ptr c \<noteq> None \<and>
                  object c = Created (created st) \<and>
                  (\<forall>p \<in> set (logs st). object (snd p) \<noteq> object c))"
proof (cases "m_find idx (logs st)")
  case None
  then show ?thesis
    by (simp add: entryAt_def)
next
  case (Some src)
  have c: "consistent st"
    using assms by (rule reachable_consistent)
  have "(idx, src) \<in> set (logs st)"
    using Some by (simp add: m_find_def map_of_SomeD)
  with c have buf: "get_buf_ptr src \<noteq> None"
    unfolding consistent_def stored_ok_def by auto
  let ?c = "src\<lparr>object := Created (created st)\<rparr>"
  have e: "entryAt st idx = Inr (Some ?c, st\<lparr>created := created st + 1\<rparr>)"
    using Some makeClone_present [OF buf, of "created st"] by (simp add: entryAt_def)
  have fresh: "\<forall>p \<in> set (logs st). object (snd p) \<noteq> object ?c"
    using c unfolding consistent_def stored_ok_def by auto
  have "entryAt st idx = Inr (Some ?c, st\<lparr>created := created st + 1\<rparr>) \<and>
        get_term ?c = get_term src \<and> get_val_type ?c = get_val_type src \<and>
        get_buf_ptr ?c = get_buf_ptr src \<and> get_buf_ptr ?c \<noteq> None \<and>
        object ?c = Created (created st) \<and>
        (\<forall>p \<in> set (logs st). object (snd p) \<noteq> object ?c)"
    using e buf fresh by simp
  then show ?thesis
    unfolding Some option.case by (rule exI [of _ ?c])
qed

theorem entryAt_total_witness:
  "reachable length_checksum state_S1 \<and>
   m_find 5 (logs state_S1) =
     Some \<lparr>get_term = 11, get_buf_ptr = Some [], get_val_type = 0, object = Created 4\<rparr> \<and>
   (\<exists>c. entryAt state_S1 5 = Inr (Some c, state_S1\<lparr>created := created state_S1 + 1\<rparr>) \<and>
        get_term c = 11 \<and> get_val_type c = 0 \<and> get_buf_ptr c = Some [] \<and>
        object c = Created (created state_S1) \<and>
        (\<forall>p \<in> set (logs state_S1). object (snd p) \<noteq> object c)) \<and>
   m_find 9 (logs state_S1) = None \<and> entryAt state_S1 9 = Inr (None, state_S1)"
proof -
  note re = state_S1_reachable
  have f: "m_find 5 (logs state_S1) =
     Some \<lparr>get_term = 11, get_buf_ptr = Some [], get_val_type = 0, object = Created 4\<rparr>"
    by code_simp
  have n: "m_find 9 (logs state_S1) = None"
    by code_simp
  have p: "\<exists>c. entryAt state_S1 5 = Inr (Some c, state_S1\<lparr>created := created state_S1 + 1\<rparr>) \<and>
        get_term c = 11 \<and> get_val_type c = 0 \<and> get_buf_ptr c = Some [] \<and>
        object c = Created (created state_S1) \<and>
        (\<forall>p \<in> set (logs state_S1). object (snd p) \<noteq> object c)"
    using entryAt_total [OF re, of 5] unfolding f by auto
  have a: "entryAt state_S1 9 = Inr (None, state_S1)"
    using entryAt_total [OF re, of 9] unfolding n by simp
  show ?thesis
    by (intro conjI re f p n a)
qed

end
